theory Spec2Isabelle
  imports Main "HOL-Library.Word"
begin

section \<open>destruct: a struct parsing library\<close>

text \<open>
  A shallow embedding of \<^verbatim>\<open>destruct.py\<close>. A descriptor object is a value of the datatype
  \<open>desc\<close> holding the attributes its \<^verbatim>\<open>__init__\<close> stores; a \<^verbatim>\<open>parse\<close> method is a function
  from a store and the input bytes to an outcome and the store it leaves. The attribute
  \<^verbatim>\<open>_consumed\<close>, which every successful \<^verbatim>\<open>parse\<close> assigns last and which the caller reads
  right after the call, is returned next to the value. An exception is the \<open>Inl\<close> branch of
  the outcome; a loop that does not end is the outcome \<open>None\<close>.

  \<^verbatim>\<open>Struct.parse\<close> assigns every field on \<^verbatim>\<open>self\<close> and returns \<^verbatim>\<open>self\<close>. A record instance
  therefore has an identity (a number, as \<^verbatim>\<open>id(self)\<close>), its value is the reference
  \<open>VObj\<close> to it, and the attributes that \<^verbatim>\<open>setattr\<close> has given the instances are kept in
  the store, which every parse takes and returns: a record parsed twice is one object whose
  attributes the second parse overwrites, also when that parse fails half way.

  Scope of the model: configured counts are natural numbers; a child descriptor is given
  as an instance (not as a class, which \<^verbatim>\<open>Arr\<close> would instantiate anew for every element);
  a record class declares fields only, no methods of its own (so no \<^verbatim>\<open>on_<name>\<close> hook
  method and no \<^verbatim>\<open>__call__\<close>), and no field is named after an attribute that
  \<^verbatim>\<open>Struct.parse\<close> reads from the record itself (\<^verbatim>\<open>_align\<close>, \<^verbatim>\<open>_union\<close>, \<^verbatim>\<open>_spec\<close>, \<^verbatim>\<open>parse\<close>).
  Fields whose name starts with \<^verbatim>\<open>on_\<close> are modelled: once assigned, such an attribute is
  what the hook lookup of \<^verbatim>\<open>Struct.parse\<close> finds and calls.
\<close>

subsection \<open>Bytes, values, errors\<close>

type_synonym byte = "8 word"
type_synonym bytes = "byte list"

text \<open>
  The exceptions the module and the library calls it makes can raise. The four
  \<^verbatim>\<open>ValueError\<close>s of the module carry what their message is formatted from; the one of
  \<^verbatim>\<open>Any.parse\<close> carries, per candidate, \<^verbatim>\<open>type(c).__name__\<close> and the exception caught.
\<close>

datatype error =
    NotImplementedError
  | KeyError
  | AttributeError
  | TypeError
  | struct_error
  | UnicodeDecodeError
  | LookupError
  | ValueError_does_not_match bytes bytes
  | ValueError_padding_too_little nat nat
  | ValueError_not_enough_elements nat int
  | ValueError_nothing_matched "(string \<times> error) list"

datatype val =
    VInt int
  | VBytes bytes
  | VStr string
  | VNone
  | VList "val list"
  | VObj nat

text \<open>
  What the code takes from the Python runtime: the byte order of the host
  (\<^verbatim>\<open>'='\<close> in a \<^verbatim>\<open>struct\<close> format) and \<^verbatim>\<open>bytes.decode\<close> for a named encoding.
\<close>

record runtime =
  big_endian :: bool
  decode :: "string \<Rightarrow> bytes \<Rightarrow> error + string"

text \<open>
  The store: the assignments \<^verbatim>\<open>setattr(self, name, val)\<close> made so far, oldest first, each
  with the identity of the record instance it was made on.
\<close>

type_synonym store = "(nat \<times> string \<times> val) list"

definition setattr :: "store \<Rightarrow> nat \<Rightarrow> string \<Rightarrow> val \<Rightarrow> store" where
  "setattr \<sigma> self name v = \<sigma> @ [(self, name, v)]"

definition hasattr :: "store \<Rightarrow> nat \<Rightarrow> string \<Rightarrow> bool" where
  "hasattr \<sigma> self name \<longleftrightarrow> list_ex (\<lambda>(obj, nm, v). obj = self \<and> nm = name) \<sigma>"

definition getattr :: "store \<Rightarrow> nat \<Rightarrow> string \<Rightarrow> val option" where
  "getattr \<sigma> self name =
     map_option (\<lambda>(obj, nm, v). v) (find (\<lambda>(obj, nm, v). obj = self \<and> nm = name) (rev \<sigma>))"

type_synonym outcome = "error + val \<times> nat"
type_synonym parser = "store \<Rightarrow> bytes \<Rightarrow> (outcome \<times> store) option"

subsection \<open>Descriptors\<close>

text \<open>
  One constructor per class, with the instance attributes. \<open>TypeBase\<close> is an instance of
  \<^verbatim>\<open>Type\<close> itself, \<open>NoneType\<close> the value \<^verbatim>\<open>None\<close> (which \<^verbatim>\<open>MetaStruct\<close> admits as a
  field). \<open>Struct self name align is_union spec\<close> is the instance with identity \<open>self\<close> of a
  record class \<open>name\<close> with the class attributes \<^verbatim>\<open>_align\<close>, \<^verbatim>\<open>_union\<close> and the ordered
  \<^verbatim>\<open>_spec\<close>.
\<close>

datatype desc =
    TypeBase
  | Int_desc nat bool string
  | Float nat
  | Sig bytes
  | Str nat string
  | Pad nat
  | Data nat
  | Struct nat string nat bool "(string \<times> desc) list"
  | Any "desc list"
  | Arr desc nat
  | Seq desc nat
  | NoneType

text \<open>The constructors of the source: what \<^verbatim>\<open>__init__\<close> (or \<^verbatim>\<open>__new__\<close>) stores.\<close>

definition Int_init :: "nat \<Rightarrow> bool \<Rightarrow> string \<Rightarrow> desc" where
  "Int_init n sgnd endian = Int_desc n sgnd endian"

definition UInt :: "nat \<Rightarrow> string \<Rightarrow> desc" where
  "UInt n endian = Int_init n False endian"

definition Float_init :: "nat \<Rightarrow> string \<Rightarrow> desc" where
  "Float_init n endian = Float n"

definition Double :: "string \<Rightarrow> desc" where
  "Double endian = Float_init 64 endian"

definition Pad_init :: "nat \<Rightarrow> desc" where
  "Pad_init amount = Pad amount"

definition Data_init :: "nat \<Rightarrow> desc" where
  "Data_init amount = Data 0"

fun type_name :: "desc \<Rightarrow> string" where
  "type_name TypeBase = ''Type''"
| "type_name (Int_desc n sgnd endian) = ''Int''"
| "type_name (Float n) = ''Float''"
| "type_name (Sig sequence) = ''Sig''"
| "type_name (Str maxlen encoding) = ''Str''"
| "type_name (Pad amount) = ''Pad''"
| "type_name (Data amount) = ''Data''"
| "type_name (Struct self name align is_union spec) = name"
| "type_name (Any children) = ''Any''"
| "type_name (Arr child len) = ''Arr''"
| "type_name (Seq child limit) = ''Seq''"
| "type_name NoneType = ''NoneType''"

subsection \<open>The struct module\<close>

text \<open>
  Python's \<^verbatim>\<open>struct.calcsize\<close> and \<^verbatim>\<open>struct.unpack\<close>, after the library's documentation,
  for the formats \<^verbatim>\<open>Int.format\<close> can build: a byte-order character \<^verbatim>\<open><\<close>, \<^verbatim>\<open>>\<close> or \<^verbatim>\<open>=\<close>
  (all three select the standard sizes) and one integer code.
\<close>

definition std_size :: "char \<Rightarrow> nat option" where
  "std_size k =
     (if k = CHR ''b'' \<or> k = CHR ''B'' then Some 1
      else if k = CHR ''h'' \<or> k = CHR ''H'' then Some 2
      else if k = CHR ''i'' \<or> k = CHR ''I'' then Some 4
      else if k = CHR ''l'' \<or> k = CHR ''L'' then Some 4
      else if k = CHR ''q'' \<or> k = CHR ''Q'' then Some 8
      else None)"

definition calcsize :: "string \<Rightarrow> error + nat" where
  "calcsize fmt =
     (case fmt of
        [e, k] \<Rightarrow>
          (if e = CHR ''<'' \<or> e = CHR ''>'' \<or> e = CHR ''='' then
             (case std_size k of Some n \<Rightarrow> Inr n | None \<Rightarrow> Inl struct_error)
           else Inl struct_error)
      | _ \<Rightarrow> Inl struct_error)"

fun le_int :: "bytes \<Rightarrow> int" where
  "le_int [] = 0"
| "le_int (b # bs) = uint b + 256 * le_int bs"

definition twos_complement :: "nat \<Rightarrow> int \<Rightarrow> int" where
  "twos_complement bits v = (if v \<ge> 2 ^ (bits - 1) then v - 2 ^ bits else v)"

definition is_lower :: "char \<Rightarrow> bool" where
  "is_lower c \<longleftrightarrow> (97::nat) \<le> of_char c \<and> of_char c \<le> (122::nat)"

definition unpack :: "runtime \<Rightarrow> string \<Rightarrow> bytes \<Rightarrow> error + int" where
  "unpack rt fmt buf =
     (case calcsize fmt of
        Inl e \<Rightarrow> Inl e
      | Inr n \<Rightarrow>
          if length buf \<noteq> n then Inl struct_error
          else
            (let e = hd fmt; k = hd (tl fmt);
                 little = (e = CHR ''<'' \<or> (e = CHR ''='' \<and> \<not> big_endian rt));
                 v = le_int (if little then buf else rev buf)
             in Inr (if is_lower k then twos_complement (8 * n) v else v)))"

subsection \<open>Primitive descriptors\<close>

definition ENDIAN_MAP :: "string \<rightharpoonup> char" where
  "ENDIAN_MAP = map_of [(''little'', CHR ''<''), (''big'', CHR ''>''), (''native'', CHR ''='')]"

definition SIZE_MAP :: "nat \<rightharpoonup> char" where
  "SIZE_MAP = map_of [(8, CHR ''b''), (16, CHR ''h''), (32, CHR ''i''), (64, CHR ''l''),
     (128, CHR ''q'')]"

definition upper :: "char \<Rightarrow> char" where
  "upper c = (if is_lower c then char_of (of_char c - (32::nat)) else c)"

text \<open>\<^verbatim>\<open>Type.format\<close> returns \<^verbatim>\<open>None\<close>; \<^verbatim>\<open>Int.format\<close> looks both tables up.\<close>

definition Int_format :: "nat \<Rightarrow> bool \<Rightarrow> string \<Rightarrow> error + string option" where
  "Int_format n sgnd endian =
     (case ENDIAN_MAP endian of
        None \<Rightarrow> Inl KeyError
      | Some e \<Rightarrow>
          (case SIZE_MAP n of
             None \<Rightarrow> Inl KeyError
           | Some kind \<Rightarrow> Inr (Some [e, if \<not> sgnd then upper kind else kind])))"

text \<open>
  \<^verbatim>\<open>Float.__init__\<close> stores \<^verbatim>\<open>n\<close> only, so \<^verbatim>\<open>Float.format\<close> fails on reading
  \<^verbatim>\<open>self.endian\<close>.
\<close>

definition Float_format :: "nat \<Rightarrow> error + string option" where
  "Float_format n = Inl AttributeError"

definition Type_parse :: "runtime \<Rightarrow> error + string option \<Rightarrow> bytes \<Rightarrow> error + val \<times> nat" where
  "Type_parse rt format input =
     (case format of
        Inl e \<Rightarrow> Inl e
      | Inr None \<Rightarrow> Inl NotImplementedError
      | Inr (Some fmt) \<Rightarrow>
          if fmt = [] then Inl NotImplementedError
          else
            (case calcsize fmt of
               Inl e \<Rightarrow> Inl e
             | Inr consumed \<Rightarrow>
                 (case unpack rt fmt (take consumed input) of
                    Inl e \<Rightarrow> Inl e
                  | Inr v \<Rightarrow> Inr (VInt v, consumed))))"

definition Sig_parse :: "bytes \<Rightarrow> bytes \<Rightarrow> error + val \<times> nat" where
  "Sig_parse sequence input =
     (if take (length sequence) input = sequence then Inr (VBytes sequence, length sequence)
      else Inl (ValueError_does_not_match (take (length sequence) input) sequence))"

text \<open>
  The argument of \<^verbatim>\<open>bytes.find\<close>: a \<^verbatim>\<open>bytes\<close> object is searched for, a text string is
  rejected with a \<^verbatim>\<open>TypeError\<close>.
\<close>

datatype needle = PyBytes bytes | PyStr string

fun find_from :: "bytes \<Rightarrow> bytes \<Rightarrow> nat \<Rightarrow> int" where
  "find_from [] sub i = (if sub = [] then int i else - 1)"
| "find_from (x # xs) sub i =
     (if take (length sub) (x # xs) = sub then int i else find_from xs sub (Suc i))"

fun bytes_find :: "bytes \<Rightarrow> needle \<Rightarrow> error + int" where
  "bytes_find input (PyBytes sub) = Inr (find_from input sub 0)"
| "bytes_find input (PyStr sub) = Inl TypeError"

definition rstrip :: "bytes \<Rightarrow> byte \<Rightarrow> bytes" where
  "rstrip bs c = rev (dropWhile (\<lambda>b. b = c) (rev bs))"

definition Str_parse :: "runtime \<Rightarrow> nat \<Rightarrow> string \<Rightarrow> bytes \<Rightarrow> error + val \<times> nat" where
  "Str_parse rt maxlen encoding input =
     (case (if maxlen \<noteq> 0 then Inr maxlen
            else (case bytes_find input (PyStr [CHR 0x00]) of
                    Inl e \<Rightarrow> Inl e
                  | Inr n \<Rightarrow> Inr (if n < 0 then length input else nat n))) of
        Inl e \<Rightarrow> Inl e
      | Inr n \<Rightarrow>
          (case decode rt encoding (rstrip (take n input) 0) of
             Inl e \<Rightarrow> Inl e
           | Inr text \<Rightarrow> Inr (VStr text, n)))"

definition Pad_parse :: "nat \<Rightarrow> bytes \<Rightarrow> error + val \<times> nat" where
  "Pad_parse amount input =
     (if length input < amount then Inl (ValueError_padding_too_little amount (length input))
      else Inr (VNone, amount))"

definition Data_parse :: "nat \<Rightarrow> bytes \<Rightarrow> error + val \<times> nat" where
  "Data_parse amount input =
     (if length input < amount then Inl (ValueError_padding_too_little amount (length input))
      else Inr (VBytes (take amount input), amount))"

subsection \<open>Records\<close>

text \<open>
  The loop of \<^verbatim>\<open>Struct.parse\<close> over \<^verbatim>\<open>self._spec.items()\<close>, with the running \<^verbatim>\<open>n\<close> and the
  remaining \<^verbatim>\<open>input\<close>. After a field has parsed, its value is assigned on \<^verbatim>\<open>self\<close>; then
  \<^verbatim>\<open>hasattr(self, 'on_' + name)\<close> is looked up. With no methods declared, the lookup finds
  only an attribute that an earlier assignment has made (a field called \<^verbatim>\<open>on_<name>\<close>,
  parsed before in this call or in an earlier one), and calling that attribute, a parsed
  value, raises \<^verbatim>\<open>TypeError\<close>.
\<close>

definition aligned :: "nat \<Rightarrow> nat \<Rightarrow> nat" where
  "aligned align nbytes = (if align \<noteq> 0 then nbytes + (align - nbytes mod align) else nbytes)"

fun Struct_for ::
  "nat \<Rightarrow> nat \<Rightarrow> bool \<Rightarrow> (string \<times> parser) list \<Rightarrow> store \<Rightarrow> bytes \<Rightarrow> nat \<Rightarrow>
     ((error + nat) \<times> store) option" where
  "Struct_for self align is_union [] \<sigma> input n = Some (Inr n, \<sigma>)"
| "Struct_for self align is_union ((name, parser) # spec) \<sigma> input n =
     (case parser \<sigma> input of
        None \<Rightarrow> None
      | Some (Inl e, \<sigma>') \<Rightarrow> Some (Inl e, \<sigma>')
      | Some (Inr (v, consumed), \<sigma>') \<Rightarrow>
          (let nbytes = aligned align consumed;
               \<sigma>'' = setattr \<sigma>' self name v
           in if hasattr \<sigma>'' self (''on_'' @ name) then Some (Inl TypeError, \<sigma>'')
              else if is_union then Struct_for self align is_union spec \<sigma>'' input (max n nbytes)
              else Struct_for self align is_union spec \<sigma>'' (drop nbytes input) (n + nbytes)))"

definition Struct_parse :: "nat \<Rightarrow> nat \<Rightarrow> bool \<Rightarrow> (string \<times> parser) list \<Rightarrow> parser" where
  "Struct_parse self align is_union spec \<sigma> input =
     (case Struct_for self align is_union spec \<sigma> input 0 of
        None \<Rightarrow> None
      | Some (Inl e, \<sigma>') \<Rightarrow> Some (Inl e, \<sigma>')
      | Some (Inr n, \<sigma>') \<Rightarrow> Some (Inr (VObj self, n), \<sigma>'))"

subsection \<open>Choice\<close>

text \<open>
  The first loop of \<^verbatim>\<open>Any.parse\<close>: the outcome of the first child that raises nothing,
  or else the exceptions caught, in order.
\<close>

fun Any_for ::
  "parser list \<Rightarrow> store \<Rightarrow> bytes \<Rightarrow> error list \<Rightarrow> ((error list + val \<times> nat) \<times> store) option" where
  "Any_for [] \<sigma> input exceptions = Some (Inl exceptions, \<sigma>)"
| "Any_for (child # children) \<sigma> input exceptions =
     (case child \<sigma> input of
        None \<Rightarrow> None
      | Some (Inr r, \<sigma>') \<Rightarrow> Some (Inr r, \<sigma>')
      | Some (Inl e, \<sigma>') \<Rightarrow> Any_for children \<sigma>' input (exceptions @ [e]))"

definition Any_parse :: "string list \<Rightarrow> parser list \<Rightarrow> parser" where
  "Any_parse names children \<sigma> input =
     (case Any_for children \<sigma> input [] of
        None \<Rightarrow> None
      | Some (Inr r, \<sigma>') \<Rightarrow> Some (Inr r, \<sigma>')
      | Some (Inl exceptions, \<sigma>') \<Rightarrow>
          Some (Inl (ValueError_nothing_matched (zip names exceptions)), \<sigma>'))"

subsection \<open>Arrays and sequences\<close>

fun to_parser :: "desc \<Rightarrow> error + desc" where
  "to_parser NoneType = Inl TypeError"
| "to_parser spec = Inr spec"

definition resolved :: "desc \<Rightarrow> parser \<Rightarrow> parser" where
  "resolved spec p \<sigma> input =
     (case to_parser spec of Inl e \<Rightarrow> Some (Inl e, \<sigma>) | Inr _ \<Rightarrow> p \<sigma> input)"

text \<open>
  \<^verbatim>\<open>Arr.parse\<close> with a length: \<^verbatim>\<open>for n in range(self.length)\<close>. The loop variable is the
  \<^verbatim>\<open>n\<close> that the body adds to, so every iteration starts from its index \<open>i\<close>; the argument
  \<open>n\<close> is the value \<^verbatim>\<open>n\<close> has when the loop is left.
\<close>

fun Arr_for ::
  "parser \<Rightarrow> nat \<Rightarrow> nat list \<Rightarrow> store \<Rightarrow> bytes \<Rightarrow> nat \<Rightarrow> val list \<Rightarrow>
     ((error + val list \<times> nat) \<times> store) option" where
  "Arr_for child len [] \<sigma> input n res = Some (Inr (res, n), \<sigma>)"
| "Arr_for child len (i # elems) \<sigma> input n res =
     (if input = [] then Some (Inl (ValueError_not_enough_elements len (int i - 1)), \<sigma>)
      else
        (case child \<sigma> input of
           None \<Rightarrow> None
         | Some (Inl e, \<sigma>') \<Rightarrow> Some (Inl e, \<sigma>')
         | Some (Inr (v, consumed), \<sigma>') \<Rightarrow>
             Arr_for child len elems \<sigma>' (drop consumed input) (i + consumed) (res @ [v])))"

text \<open>
  \<^verbatim>\<open>Arr.parse\<close> without a length: \<^verbatim>\<open>for n in itertools.repeat(0)\<close>, left only by the
  \<^verbatim>\<open>break\<close> on an empty input, where \<^verbatim>\<open>n\<close> has just been set to 0.
\<close>

partial_function (option) Arr_repeat ::
  "parser \<Rightarrow> store \<Rightarrow> bytes \<Rightarrow> val list \<Rightarrow> ((error + val list \<times> nat) \<times> store) option" where
  "Arr_repeat child \<sigma> input res =
     (if input = [] then Some (Inr (res, 0), \<sigma>)
      else
        (case child \<sigma> input of
           None \<Rightarrow> None
         | Some (Inl e, \<sigma>') \<Rightarrow> Some (Inl e, \<sigma>')
         | Some (Inr (v, consumed), \<sigma>') \<Rightarrow>
             Arr_repeat child \<sigma>' (drop consumed input) (res @ [v])))"

declare Arr_repeat.simps [code]

definition Arr_parse :: "parser \<Rightarrow> nat \<Rightarrow> parser" where
  "Arr_parse child len \<sigma> input =
     (case (if len \<noteq> 0 then Arr_for child len [0..<len] \<sigma> input 0 []
            else Arr_repeat child \<sigma> input []) of
        None \<Rightarrow> None
      | Some (Inl e, \<sigma>') \<Rightarrow> Some (Inl e, \<sigma>')
      | Some (Inr (res, n), \<sigma>') \<Rightarrow> Some (Inr (VList res, n), \<sigma>'))"

text \<open>The \<^verbatim>\<open>while\<close> loop of \<^verbatim>\<open>Seq.parse\<close>; its bare \<^verbatim>\<open>except\<close> leaves the loop.\<close>

partial_function (option) Seq_while ::
  "parser \<Rightarrow> nat \<Rightarrow> store \<Rightarrow> bytes \<Rightarrow> nat \<Rightarrow> val list \<Rightarrow> ((val list \<times> nat) \<times> store) option" where
  "Seq_while child limit \<sigma> input n res =
     (if input \<noteq> [] \<and> (limit = 0 \<or> n < limit) then
        (case child \<sigma> input of
           None \<Rightarrow> None
         | Some (Inl e, \<sigma>') \<Rightarrow> Some ((res, n), \<sigma>')
         | Some (Inr (v, consumed), \<sigma>') \<Rightarrow>
             Seq_while child limit \<sigma>' (drop consumed input) (n + consumed) (res @ [v]))
      else Some ((res, n), \<sigma>))"

declare Seq_while.simps [code]

definition Seq_parse :: "parser \<Rightarrow> nat \<Rightarrow> parser" where
  "Seq_parse child limit \<sigma> input =
     (case Seq_while child limit \<sigma> input 0 [] of
        None \<Rightarrow> None
      | Some ((res, n), \<sigma>') \<Rightarrow> Some (Inr (VList res, n), \<sigma>'))"

subsection \<open>Method dispatch and the module's parse\<close>

definition returns :: "outcome \<Rightarrow> store \<Rightarrow> (outcome \<times> store) option" where
  "returns r \<sigma> = Some (r, \<sigma>)"

primrec parse_method :: "runtime \<Rightarrow> desc \<Rightarrow> parser" where
  "parse_method rt TypeBase = (\<lambda>\<sigma> input. returns (Type_parse rt (Inr None) input) \<sigma>)"
| "parse_method rt (Int_desc n sgnd endian) =
     (\<lambda>\<sigma> input. returns (Type_parse rt (Int_format n sgnd endian) input) \<sigma>)"
| "parse_method rt (Float n) = (\<lambda>\<sigma> input. returns (Type_parse rt (Float_format n) input) \<sigma>)"
| "parse_method rt (Sig sequence) = (\<lambda>\<sigma> input. returns (Sig_parse sequence input) \<sigma>)"
| "parse_method rt (Str maxlen encoding) =
     (\<lambda>\<sigma> input. returns (Str_parse rt maxlen encoding input) \<sigma>)"
| "parse_method rt (Pad amount) = (\<lambda>\<sigma> input. returns (Pad_parse amount input) \<sigma>)"
| "parse_method rt (Data amount) = (\<lambda>\<sigma> input. returns (Data_parse amount input) \<sigma>)"
| "parse_method rt (Struct self name align is_union spec) =
     Struct_parse self align is_union (map (map_prod id (parse_method rt)) spec)"
| "parse_method rt (Any children) =
     Any_parse (map type_name children) (map (parse_method rt) children)"
| "parse_method rt (Arr child len) = Arr_parse (resolved child (parse_method rt child)) len"
| "parse_method rt (Seq child limit) = Seq_parse (parse_method rt child) limit"
| "parse_method rt NoneType = (\<lambda>\<sigma> input. returns (Inl AttributeError) \<sigma>)"

definition parse :: "runtime \<Rightarrow> desc \<Rightarrow> store \<Rightarrow> bytes \<Rightarrow> ((error + val) \<times> store) option" where
  "parse rt spec \<sigma> input =
     (case resolved spec (parse_method rt spec) \<sigma> input of
        None \<Rightarrow> None
      | Some (Inl e, \<sigma>') \<Rightarrow> Some (Inl e, \<sigma>')
      | Some (Inr (v, consumed), \<sigma>') \<Rightarrow> Some (Inr v, \<sigma>'))"

subsection \<open>A sample runtime and the reference codec\<close>

text \<open>
  A runtime for evaluating concrete parses: a little-endian host whose \<^verbatim>\<open>ascii\<close> and
  \<^verbatim>\<open>utf-8\<close> codecs decode bytes below \<open>0x80\<close> to the characters of the same code (there
  the two codecs of CPython agree) and reject every other byte.
\<close>

definition ascii_decode :: "string \<Rightarrow> bytes \<Rightarrow> error + string" where
  "ascii_decode encoding bs =
     (if encoding = ''ascii'' \<or> encoding = ''utf-8'' then
        (if list_all (\<lambda>b. b < 0x80) bs then Inr (map (\<lambda>b. char_of (unat b)) bs)
         else Inl UnicodeDecodeError)
      else Inl LookupError)"

definition ascii_runtime :: runtime where
  "ascii_runtime = \<lparr>big_endian = False, decode = ascii_decode\<rparr>"

text \<open>
  The reference codec integer descriptors are compared with, written from the
  specification's words: the bytes read in the configured byte order, as two's complement
  over the full width when the descriptor is signed (Python's \<^verbatim>\<open>int.from_bytes\<close>).
\<close>

definition int_from_bytes :: "bool \<Rightarrow> bool \<Rightarrow> bytes \<Rightarrow> int" where
  "int_from_bytes big sgnd bs =
     (let u = foldl (\<lambda>acc b. 256 * acc + uint b) 0 (if big then bs else rev bs)
      in if sgnd \<and> u \<ge> 2 ^ (8 * length bs - 1) then u - 2 ^ (8 * length bs) else u)"

text \<open>
  The alignment the specification describes, for comparison with \<open>aligned\<close>: a count is
  padded up to the next multiple of the stride only when it is not one already.
\<close>

definition padded_to_stride :: "nat \<Rightarrow> nat \<Rightarrow> nat" where
  "padded_to_stride align c = (if align \<noteq> 0 \<and> c mod align \<noteq> 0 then c + (align - c mod align) else c)"


text \<open>
  A run of the loop of \<^verbatim>\<open>Any.parse\<close> in which every candidate raises: tried in order on the
  same \<open>input\<close>, each in the store the one before left, the candidates raise the exceptions
  \<open>es\<close> and leave the store \<open>\<sigma>'\<close>.
\<close>

fun Any_raise :: "parser list \<Rightarrow> store \<Rightarrow> bytes \<Rightarrow> error list \<Rightarrow> store \<Rightarrow> bool" where
  "Any_raise [] \<sigma> input es \<sigma>' = (es = [] \<and> \<sigma>' = \<sigma>)"
| "Any_raise (child # children) \<sigma> input es \<sigma>' =
     (case child \<sigma> input of
        Some (Inl e, \<sigma>1) \<Rightarrow>
          (case es of [] \<Rightarrow> False | e' # es' \<Rightarrow> e' = e \<and> Any_raise children \<sigma>1 input es' \<sigma>')
      | _ \<Rightarrow> False)"

text \<open>
  The descriptors whose parse cannot record more consumed bytes than the buffer holds:
  no string with a maximum length, no record with an alignment stride, no array with a
  length. \<open>bounded\<close> is that property of a parse function.
\<close>

fun within_buffer :: "desc \<Rightarrow> bool" where
  "within_buffer (Str maxlen encoding) = (maxlen = 0)"
| "within_buffer (Struct self name align is_union spec) =
     (align = 0 \<and> list_all (\<lambda>f. within_buffer (snd f)) spec)"
| "within_buffer (Any children) = list_all within_buffer children"
| "within_buffer (Arr child len) = (len = 0)"
| "within_buffer (Seq child limit) = within_buffer child"
| "within_buffer d = True"

definition bounded :: "parser \<Rightarrow> bool" where
  "bounded p \<longleftrightarrow> (\<forall>\<sigma> input v c \<sigma>'. p \<sigma> input = Some (Inr (v, c), \<sigma>') \<longrightarrow> c \<le> length input)"

section \<open>Properties\<close>

subsection \<open>Integers\<close>

lemma foldl_le_int:
  "foldl (\<lambda>acc b. 256 * acc + uint b) a bs = a * 256 ^ length bs + le_int (rev bs)"
proof (induction bs arbitrary: a)
  case Nil
  show ?case by simp
next
  case (Cons b bs)
  have app: "le_int (xs @ [y]) = le_int xs + 256 ^ length xs * uint y" for xs y
    by (induction xs) (simp_all add: algebra_simps)
  show ?case unfolding foldl_Cons Cons.IH
    by (simp add: app algebra_simps)
qed

lemma int_from_bytes_le_int:
  "int_from_bytes big sgnd bs =
     (let u = le_int (if big then rev bs else bs)
      in if sgnd then twos_complement (8 * length bs) u else u)"
  by (simp add: int_from_bytes_def foldl_le_int twos_complement_def Let_def)

lemma upper_kinds:
  "upper CHR ''b'' = CHR ''B''" "upper CHR ''h'' = CHR ''H''" "upper CHR ''i'' = CHR ''I''"
  "upper CHR ''l'' = CHR ''L''" "upper CHR ''q'' = CHR ''Q''"
  by code_simp+

lemma is_lower_kinds:
  "is_lower CHR ''b''" "is_lower CHR ''h''" "is_lower CHR ''i''" "is_lower CHR ''l''"
  "is_lower CHR ''q''" "\<not> is_lower CHR ''B''" "\<not> is_lower CHR ''H''"
  "\<not> is_lower CHR ''I''" "\<not> is_lower CHR ''L''" "\<not> is_lower CHR ''Q''"
  by code_simp+

lemma Int_format_cases:
  assumes "n = 8 \<or> n = 16 \<or> n = 32" and "endian = ''little'' \<or> endian = ''big''"
  shows "\<exists>e k. Int_format n sgnd endian = Inr (Some [e, k]) \<and> std_size k = Some (n div 8)
     \<and> (e = CHR ''<'' \<or> e = CHR ''>'') \<and> (e = CHR ''>'') = (endian = ''big'')
     \<and> is_lower k = sgnd"
  using assms
  by (cases sgnd)
    (auto simp add: Int_format_def ENDIAN_MAP_def SIZE_MAP_def upper_kinds is_lower_kinds
      std_size_def)

text \<open>
  For the widths 8, 16 and 32 the table \<^verbatim>\<open>SIZE_MAP\<close> names a code of that width, and an
  integer descriptor decodes a buffer of exactly that width as the reference codec does.
\<close>

lemma Int_parse_reference:
  assumes "n = 8 \<or> n = 16 \<or> n = 32" and "endian = ''little'' \<or> endian = ''big''"
    and "length input = n div 8"
  shows "parse_method rt (Int_init n sgnd endian) \<sigma> input =
     Some (Inr (VInt (int_from_bytes (endian = ''big'') sgnd input), n div 8), \<sigma>)"
proof -
  obtain e k where f: "Int_format n sgnd endian = Inr (Some [e, k])"
    and s: "std_size k = Some (n div 8)"
    and e: "e = CHR ''<'' \<or> e = CHR ''>''" "(e = CHR ''>'') = (endian = ''big'')"
    and k: "is_lower k = sgnd"
    using Int_format_cases [OF assms(1,2)] by blast
  have c: "calcsize [e, k] = Inr (n div 8)"
    using e(1) s by (auto simp add: calcsize_def)
  show ?thesis
    using e k assms(3)
    by (auto simp add: Int_init_def returns_def Type_parse_def f c unpack_def
        int_from_bytes_le_int Let_def)
qed

text \<open>
  C6 (an integer descriptor on a buffer of exactly its width consumes the full width and
  returns what the reference codec decodes): for the width 64 \<^verbatim>\<open>SIZE_MAP\<close> names the code
  \<^verbatim>\<open>l\<close>, whose standard size is 4. On the eight bytes of \<open>2 ^ 32\<close> in little-endian order
  \<^verbatim>\<open>Int(64, signed=False)\<close> consumes 4 bytes and returns 0, where the reference codec
  decodes 4294967296 from the eight bytes.
\<close>

theorem Int_64_reads_four_bytes:
  "parse_method rt (Int_init 64 False ''little'') \<sigma> [0, 0, 0, 0, 1, 0, 0, 0]
     = Some (Inr (VInt 0, 4), \<sigma>)
   \<and> int_from_bytes False False [0, 0, 0, 0, 1, 0, 0, 0] = 4294967296"
  by code_simp

subsection \<open>Strings and raw data\<close>

lemma find_bytes_hi_extra:
  "bytes_find [0x68, 0x69, 0x00, 0x65, 0x78, 0x74, 0x72, 0x61] (PyBytes [0x00]) = Inr 2"
  by simp

text \<open>
  C4 (a string descriptor without a maximum length parses \<^verbatim>\<open>b'hi\x00extra'\<close> to the text
  \<^verbatim>\<open>hi\<close> and 3 consumed bytes): \<^verbatim>\<open>Str.parse\<close> searches the buffer for the text string
  \<^verbatim>\<open>'\x00'\<close>, which \<^verbatim>\<open>bytes.find\<close> rejects, so the parse raises \<^verbatim>\<open>TypeError\<close> on this (and
  every) buffer.
\<close>

theorem Str_parse_hi_extra:
  "parse_method rt (Str 0 ''utf-8'') \<sigma> [0x68, 0x69, 0x00, 0x65, 0x78, 0x74, 0x72, 0x61]
     = Some (Inl TypeError, \<sigma>)"
  by (simp add: Str_parse_def returns_def)

lemma Data_init_parse:
  "parse_method rt (Data_init k) \<sigma> input = Some (Inr (VBytes [], 0), \<sigma>)"
  by (simp add: Data_init_def Data_parse_def returns_def)

text \<open>
  C5 (a raw-data descriptor constructed with a byte count k yields the first k bytes and
  records k consumed bytes): \<^verbatim>\<open>Data.__init__\<close> stores 0 whatever the count is, so
  \<^verbatim>\<open>Data(2)\<close> on \<^verbatim>\<open>b'abc'\<close> yields the empty bytes and records 0 consumed bytes.
\<close>

theorem Data_2_yields_nothing:
  "parse_method rt (Data_init 2) \<sigma> [0x61, 0x62, 0x63] = Some (Inr (VBytes [], 0), \<sigma>)"
  by (simp add: Data_init_def Data_parse_def returns_def)

text \<open>
  C3 (after a successful parse the consumed count is at most the length of the buffer):
  \<^verbatim>\<open>Str.parse\<close> with a maximum length records that length without looking at the
  length of the buffer. \<^verbatim>\<open>Str(5)\<close> on the two bytes \<^verbatim>\<open>b'hi'\<close> returns \<^verbatim>\<open>hi\<close> and records 5
  consumed bytes.
\<close>

theorem Str_5_consumes_beyond_buffer:
  "parse_method ascii_runtime (Str 5 ''utf-8'') \<sigma> [0x68, 0x69]
     = Some (Inr (VStr ''hi'', 5), \<sigma>)"
  by code_simp

subsection \<open>Arrays\<close>

lemma Arr_for_result:
  "Arr_for p len elems \<sigma> input n res = Some (Inr (vs, m), \<sigma>') \<Longrightarrow>
     length vs = length res + length elems \<and>
     (elems = [] \<longrightarrow> m = n) \<and>
     (elems \<noteq> [] \<longrightarrow> (\<exists>\<sigma>1 buf v c \<sigma>2. p \<sigma>1 buf = Some (Inr (v, c), \<sigma>2) \<and> m = last elems + c))"
proof (induction elems arbitrary: \<sigma> input n res)
  case Nil
  then show ?case by simp
next
  case (Cons i elems)
  from Cons.prems obtain v c \<sigma>1 where pc: "p \<sigma> input = Some (Inr (v, c), \<sigma>1)"
    and rest: "Arr_for p len elems \<sigma>1 (drop c input) (i + c) (res @ [v]) = Some (Inr (vs, m), \<sigma>')"
    by (auto split: if_splits option.splits sum.splits)
  from Cons.IH [OF rest] pc show ?case
    by (cases "elems = []") auto
qed

text \<open>
  What \<^verbatim>\<open>Arr.parse\<close> with a length \<open>N\<close> returns when it succeeds: a list of \<open>N\<close> values, and
  as consumed count \<open>N - 1\<close> plus the count of one element (the last).
\<close>

lemma Arr_parse_fixed:
  assumes "0 < N" and "parse_method rt (Arr child N) \<sigma> input = Some (Inr (v, m), \<sigma>')"
  shows "\<exists>vs. v = VList vs \<and> length vs = N \<and>
     (\<exists>\<sigma>1 buf w c \<sigma>2. parse_method rt child \<sigma>1 buf = Some (Inr (w, c), \<sigma>2) \<and> m = N - 1 + c)"
proof -
  from assms obtain vs where v: "v = VList vs"
    and a: "Arr_for (resolved child (parse_method rt child)) N [0..<N] \<sigma> input 0 []
        = Some (Inr (vs, m), \<sigma>')"
    by (auto simp add: Arr_parse_def split: option.splits sum.splits)
  from Arr_for_result [OF a] assms(1)
  obtain \<sigma>1 buf w c \<sigma>2 where "length vs = N"
    and "resolved child (parse_method rt child) \<sigma>1 buf = Some (Inr (w, c), \<sigma>2)"
    and "m = N - 1 + c"
    by auto
  then show ?thesis
    using v by (auto simp add: resolved_def split: sum.splits)
qed

text \<open>
  C1 (an array of N elements reports the sum of its elements' consumed counts): the loop
  variable of \<^verbatim>\<open>Arr.parse\<close> is the counter it adds to. \<^verbatim>\<open>Arr(UInt(16), 2)\<close> on four bytes
  returns two elements, each of which consumed 2 bytes, and records 3 consumed bytes.
\<close>

theorem Arr_2_consumed_not_sum:
  "parse_method rt (Arr (UInt 16 ''little'') 2) \<sigma> [1, 0, 2, 0]
     = Some (Inr (VList [VInt 1, VInt 2], 3), \<sigma>)
   \<and> parse_method rt (UInt 16 ''little'') \<sigma> [1, 0, 2, 0] = Some (Inr (VInt 1, 2), \<sigma>)
   \<and> parse_method rt (UInt 16 ''little'') \<sigma> [2, 0] = Some (Inr (VInt 2, 2), \<sigma>)"
  by code_simp

subsection \<open>Records\<close>

lemma aligned_multiple: "align \<noteq> 0 \<Longrightarrow> c mod align = 0 \<Longrightarrow> aligned align c = c + align"
  by (simp add: aligned_def)

lemma aligned_not_multiple:
  "align \<noteq> 0 \<Longrightarrow> c mod align \<noteq> 0 \<Longrightarrow> aligned align c = c + (align - c mod align)"
  by (simp add: aligned_def)

text \<open>
  C2 (in struct mode with stride A no padding is added after a field whose consumed count
  is a multiple of A): \<^verbatim>\<open>Struct.parse\<close> adds \<^verbatim>\<open>A - c % A\<close> in every case, which is a whole
  stride when \<open>c\<close> is a multiple of \<open>A\<close>. With stride 4, after a 4-byte field the next field
  is read at offset 8: the record below, a fresh instance, gets \<open>b = 3\<close> (the byte at offset
  8, not the 2 at offset 4) and records 12 consumed bytes.
\<close>

theorem Struct_pads_aligned_field:
  "parse_method rt
     (Struct 1 ''S'' 4 False [(''a'', UInt 32 ''little''), (''b'', UInt 8 ''little'')])
     [] [1, 0, 0, 0, 2, 0, 0, 0, 3]
   = Some (Inr (VObj 1, 12), [(1, ''a'', VInt 1), (1, ''b'', VInt 3)])"
  by code_simp

text \<open>
  C7 (the consumed count of a union-mode record is the maximum of its fields' aligned
  counts): the padding step is the one of struct mode, so a field whose count is a multiple
  of the stride is counted a whole stride longer. A union with stride 4 and one 4-byte
  field, on a buffer of 4 bytes, records 8 consumed bytes, where the field consumed 4, which
  is a multiple of the stride already.
\<close>

theorem Union_pads_aligned_field:
  "parse_method rt (Struct 1 ''U'' 4 True [(''a'', UInt 32 ''little'')]) [] [1, 0, 0, 0]
     = Some (Inr (VObj 1, 8), [(1, ''a'', VInt 1)])
   \<and> parse_method rt (UInt 32 ''little'') [] [1, 0, 0, 0] = Some (Inr (VInt 1, 4), [])
   \<and> padded_to_stride 4 4 = 4"
  by code_simp

lemma Union_for_consumed:
  "Struct_for self align True ps \<sigma> input n = Some (Inr n', \<sigma>') \<Longrightarrow>
     \<exists>cs. length cs = length ps \<and>
       (\<forall>i < length ps. \<exists>\<sigma>1 v \<sigma>2. snd (ps ! i) \<sigma>1 input = Some (Inr (v, cs ! i), \<sigma>2)) \<and>
       n' = fold max (map (aligned align) cs) n"
proof (induction ps arbitrary: \<sigma> n)
  case Nil
  then show ?case by simp
next
  case (Cons f ps)
  obtain name p where f: "f = (name, p)" by (cases f)
  from Cons.prems obtain v c \<sigma>1 where pc: "p \<sigma> input = Some (Inr (v, c), \<sigma>1)"
    and rest: "Struct_for self align True ps (setattr \<sigma>1 self name v) input (max n (aligned align c))
        = Some (Inr n', \<sigma>')"
    by (auto simp add: f Let_def split: option.splits sum.splits if_splits)
  from Cons.IH [OF rest] obtain cs where cs: "length cs = length ps"
    and each: "\<forall>i < length ps. \<exists>\<sigma>1 v \<sigma>2. snd (ps ! i) \<sigma>1 input = Some (Inr (v, cs ! i), \<sigma>2)"
    and n': "n' = fold max (map (aligned align) cs) (max n (aligned align c))"
    by blast
  have "\<forall>i < length (f # ps). \<exists>\<sigma>1 v \<sigma>2.
      snd ((f # ps) ! i) \<sigma>1 input = Some (Inr (v, (c # cs) ! i), \<sigma>2)"
  proof (intro allI impI)
    fix i
    assume "i < length (f # ps)"
    then show "\<exists>\<sigma>1 v \<sigma>2. snd ((f # ps) ! i) \<sigma>1 input = Some (Inr (v, (c # cs) ! i), \<sigma>2)"
      using pc each by (cases i) (auto simp add: f)
  qed
  moreover have "n' = fold max (map (aligned align) (c # cs)) n"
    unfolding n' by (simp add: max.commute)
  ultimately show ?case
    using cs by (intro exI [of _ "c # cs"]) simp
qed

text \<open>
  In union mode every field is parsed on the buffer the record was given, and the record's
  consumed count is the maximum of the counts the fields are taken to have after the
  code's padding step (0 for a record without fields). Without a stride the step changes
  nothing, and the count is the maximum of the fields' own counts.
\<close>

lemma Union_parse_consumed:
  assumes "parse_method rt (Struct self name align True spec) \<sigma> input = Some (Inr (v, n), \<sigma>')"
  shows "v = VObj self \<and>
     (\<exists>cs. length cs = length spec \<and>
        (\<forall>i < length spec. \<exists>\<sigma>1 w \<sigma>2.
            parse_method rt (snd (spec ! i)) \<sigma>1 input = Some (Inr (w, cs ! i), \<sigma>2)) \<and>
        n = Max (set (0 # map (aligned align) cs)) \<and>
        (align = 0 \<longrightarrow> n = Max (set (0 # cs))))"
proof -
  from assms have v: "v = VObj self"
    and s: "Struct_for self align True (map (map_prod id (parse_method rt)) spec) \<sigma> input 0
        = Some (Inr n, \<sigma>')"
    by (auto simp add: Struct_parse_def split: option.splits sum.splits)
  from Union_for_consumed [OF s] obtain cs where cs: "length cs = length spec"
    and each: "\<forall>i < length spec. \<exists>\<sigma>1 w \<sigma>2.
        parse_method rt (snd (spec ! i)) \<sigma>1 input = Some (Inr (w, cs ! i), \<sigma>2)"
    and n: "n = fold max (map (aligned align) cs) 0"
    by auto
  have m: "n = Max (set (0 # map (aligned align) cs))"
    unfolding n by (rule Max.set_eq_fold [symmetric])
  have "map (aligned align) cs = cs" if "align = 0"
    using that by (simp add: aligned_def map_idI)
  with m have "align = 0 \<longrightarrow> n = Max (set (0 # cs))"
    by metis
  with v cs each m show ?thesis by blast
qed

text \<open>
  A record instance parsed twice is one object: the sequence below returns the same
  reference twice, and the attribute \<open>a\<close> of the object holds the 5 that the third parse,
  which then failed and was swallowed, assigned.
\<close>

lemma Seq_of_record_aliases:
  "parse_method rt
     (Seq (Struct 1 ''S'' 0 False [(''a'', UInt 8 ''little''), (''b'', UInt 8 ''little'')]) 0)
     [] [1, 2, 3, 4, 5]
   = Some (Inr (VList [VObj 1, VObj 1], 4),
       [(1, ''a'', VInt 1), (1, ''b'', VInt 2), (1, ''a'', VInt 3), (1, ''b'', VInt 4),
        (1, ''a'', VInt 5)])
   \<and> getattr [(1, ''a'', VInt 1), (1, ''b'', VInt 2), (1, ''a'', VInt 3), (1, ''b'', VInt 4),
        (1, ''a'', VInt 5)] 1 ''a'' = Some (VInt 5)
   \<and> getattr [(1, ''a'', VInt 1), (1, ''b'', VInt 2), (1, ''a'', VInt 3), (1, ''b'', VInt 4),
        (1, ''a'', VInt 5)] 1 ''b'' = Some (VInt 4)"
  by code_simp

text \<open>
  A field called \<^verbatim>\<open>on_a\<close> is what the hook lookup after the field \<^verbatim>\<open>a\<close> finds: the record
  raises \<^verbatim>\<open>TypeError\<close>.
\<close>

lemma Struct_field_taken_for_hook:
  "parse_method rt
     (Struct 1 ''S'' 0 False [(''on_a'', UInt 8 ''little''), (''a'', UInt 8 ''little'')])
     [] [7, 1]
   = Some (Inl TypeError, [(1, ''on_a'', VInt 7), (1, ''a'', VInt 1)])"
  by code_simp

subsection \<open>Choice\<close>

lemma Any_raise_Cons:
  "Any_raise (q # ps) \<sigma> input es \<sigma>1 \<longleftrightarrow>
     (\<exists>e es' \<sigma>'. q \<sigma> input = Some (Inl e, \<sigma>') \<and> es = e # es' \<and> Any_raise ps \<sigma>' input es' \<sigma>1)"
  by (auto split: option.splits prod.splits sum.splits list.splits)

lemma Any_for_first:
  "Any_raise before \<sigma> input es \<sigma>1 \<Longrightarrow> p \<sigma>1 input = Some (Inr r, \<sigma>2) \<Longrightarrow>
     Any_for (before @ p # later) \<sigma> input excs = Some (Inr r, \<sigma>2)"
proof (induction before arbitrary: \<sigma> es excs)
  case Nil
  then show ?case by simp
next
  case (Cons q before)
  from Cons.prems(1) obtain e es' \<sigma>' where q: "q \<sigma> input = Some (Inl e, \<sigma>')"
    and rest: "Any_raise before \<sigma>' input es' \<sigma>1"
    unfolding Any_raise_Cons by blast
  from Cons.IH [OF rest Cons.prems(2)] q show ?case by simp
qed

lemma Any_for_all_fail:
  "Any_raise ps \<sigma> input es \<sigma>1 \<Longrightarrow> Any_for ps \<sigma> input excs = Some (Inl (excs @ es), \<sigma>1)"
proof (induction ps arbitrary: \<sigma> es excs)
  case Nil
  then show ?case by simp
next
  case (Cons q ps)
  from Cons.prems obtain e es' \<sigma>' where q: "q \<sigma> input = Some (Inl e, \<sigma>')"
    and es: "es = e # es'" and rest: "Any_raise ps \<sigma>' input es' \<sigma>1"
    unfolding Any_raise_Cons by blast
  from Cons.IH [OF rest] q es show ?case by simp
qed

text \<open>
  C8: every candidate of a choice is tried on the same \<open>input\<close>, in order. When the
  candidates \<open>before\<close> raise and \<open>c\<close> returns, the choice returns the value and consumed count
  of \<open>c\<close>, whatever the candidates \<open>later\<close> are; when every candidate raises, the choice
  raises the error that pairs, in order, each candidate's type name with its exception.
\<close>

theorem Any_first_success_or_all_failures:
  "(Any_raise (map (parse_method rt) before) \<sigma> input es \<sigma>1 \<and>
      parse_method rt c \<sigma>1 input = Some (Inr r, \<sigma>2)
      \<longrightarrow> parse_method rt (Any (before @ c # later)) \<sigma> input = Some (Inr r, \<sigma>2))
   \<and> (Any_raise (map (parse_method rt) children) \<sigma> input es \<sigma>1
      \<longrightarrow> parse_method rt (Any children) \<sigma> input
            = Some (Inl (ValueError_nothing_matched (zip (map type_name children) es)), \<sigma>1))"
proof (intro conjI impI)
  assume "Any_raise (map (parse_method rt) before) \<sigma> input es \<sigma>1 \<and>
      parse_method rt c \<sigma>1 input = Some (Inr r, \<sigma>2)"
  then have "Any_for (map (parse_method rt) before @ parse_method rt c # map (parse_method rt) later)
      \<sigma> input [] = Some (Inr r, \<sigma>2)"
    by (intro Any_for_first [where es = es and ?\<sigma>1.0 = \<sigma>1]) simp_all
  then show "parse_method rt (Any (before @ c # later)) \<sigma> input = Some (Inr r, \<sigma>2)"
    by (simp add: Any_parse_def)
next
  assume "Any_raise (map (parse_method rt) children) \<sigma> input es \<sigma>1"
  then have "Any_for (map (parse_method rt) children) \<sigma> input [] = Some (Inl ([] @ es), \<sigma>1)"
    by (rule Any_for_all_fail)
  then show "parse_method rt (Any children) \<sigma> input
      = Some (Inl (ValueError_nothing_matched (zip (map type_name children) es)), \<sigma>1)"
    by (simp add: Any_parse_def)
qed

theorem Any_first_success_or_all_failures_witness:
  "parse_method ascii_runtime (Any [UInt 16 ''little'', UInt 8 ''little'', Sig [7]]) [] [1]
     = Some (Inr (VInt 1, 1), [])
   \<and> parse_method ascii_runtime (Any [UInt 16 ''little'', Sig [2]]) [] [1]
     = Some (Inl (ValueError_nothing_matched
         [(''Int'', struct_error), (''Sig'', ValueError_does_not_match [1] [2])]), [])"
proof -
  have a: "Any_raise (map (parse_method ascii_runtime) [UInt 16 ''little'']) [] [1]
      [struct_error] []"
    by code_simp
  have b: "parse_method ascii_runtime (UInt 8 ''little'') [] [1] = Some (Inr (VInt 1, 1), [])"
    by code_simp
  have c: "Any_raise (map (parse_method ascii_runtime) [UInt 16 ''little'', Sig [2]]) [] [1]
      [struct_error, ValueError_does_not_match [1] [2]] []"
    by code_simp
  have n: "zip (map type_name [UInt 16 ''little'', Sig [2]])
      [struct_error, ValueError_does_not_match [1] [2]]
      = [(''Int'', struct_error), (''Sig'', ValueError_does_not_match [1] [2])]"
    by code_simp
  have "parse_method ascii_runtime (Any ([UInt 16 ''little''] @ UInt 8 ''little'' # [Sig [7]])) [] [1]
      = Some (Inr (VInt 1, 1), [])"
    using Any_first_success_or_all_failures [of ascii_runtime "[UInt 16 ''little'']" "[]" "[1]"
        "[struct_error]" "[]" "UInt 8 ''little''" "(VInt 1, 1)" "[]" "[Sig [7]]" "[]"] a b
    by blast
  moreover have "parse_method ascii_runtime (Any [UInt 16 ''little'', Sig [2]]) [] [1]
      = Some (Inl (ValueError_nothing_matched (zip (map type_name [UInt 16 ''little'', Sig [2]])
          [struct_error, ValueError_does_not_match [1] [2]])), [])"
    using Any_first_success_or_all_failures [of ascii_runtime "[]" "[]" "[1]"
        "[struct_error, ValueError_does_not_match [1] [2]]" "[]" TypeBase "(VNone, 0)" "[]" "[]"
        "[UInt 16 ''little'', Sig [2]]"] c
    by blast
  ultimately show ?thesis
    by (simp only: n append.simps simp_thms)
qed

subsection \<open>Sequences\<close>



lemma Seq_while_leave:
  "input = [] \<or> (L \<noteq> 0 \<and> L \<le> n) \<Longrightarrow> Seq_while p L \<sigma> input n res = Some ((res, n), \<sigma>)"
  by (subst Seq_while.simps) auto


lemma Seq_while_overshoot:
  assumes "Seq_while p L \<sigma> input n res = Some y"
  shows "0 < L \<longrightarrow> snd (fst y) = n \<or>
     (\<exists>\<sigma>1 buf v c \<sigma>2. p \<sigma>1 buf = Some (Inr (v, c), \<sigma>2) \<and> snd (fst y) < L + c)"
proof (rule Seq_while.raw_induct [where P = "\<lambda>p L \<sigma> input n res y.
    0 < L \<longrightarrow> snd (fst y) = n \<or>
      (\<exists>\<sigma>1 buf v c \<sigma>2. p \<sigma>1 buf = Some (Inr (v, c), \<sigma>2) \<and> snd (fst y) < L + c)", OF _ assms],
    goal_cases)
  case (1 Seq_while p limit \<sigma> input n res y)
  show ?case
  proof
    assume L: "0 < limit"
    show "snd (fst y) = n \<or>
      (\<exists>\<sigma>1 buf v c \<sigma>2. p \<sigma>1 buf = Some (Inr (v, c), \<sigma>2) \<and> snd (fst y) < limit + c)"
    proof (cases "input \<noteq> [] \<and> n < limit")
      case False
      with 1(2) L show ?thesis by (auto split: if_splits)
    next
      case True
      show ?thesis
      proof (cases "p \<sigma> input")
        case None
        with 1(2) True show ?thesis by simp
      next
        case (Some o1)
        obtain r \<sigma>' where o1: "o1 = (r, \<sigma>')" by (cases o1)
        show ?thesis
        proof (cases r)
          case (Inl e)
          with 1(2) True Some o1 show ?thesis by auto
        next
          case (Inr vc)
          obtain v c where vc: "vc = (v, c)" by (cases vc)
          from 1(2) True Some o1 Inr vc
          have "Seq_while p limit \<sigma>' (drop c input) (n + c) (res @ [v]) = Some y" by simp
          from 1(1) [OF this] L
          have "snd (fst y) = n + c \<or>
            (\<exists>\<sigma>1 buf v c \<sigma>2. p \<sigma>1 buf = Some (Inr (v, c), \<sigma>2) \<and> snd (fst y) < limit + c)"
            by simp
          then show ?thesis
          proof
            assume "snd (fst y) = n + c"
            with True have "snd (fst y) < limit + c" by simp
            with Some o1 Inr vc show ?thesis by blast
          qed blast
        qed
      qed
    qed
  qed
qed

text \<open>
  The loop returns whenever the child returns on every buffer and consumes at least one
  byte when it succeeds.
\<close>

lemma Seq_while_returns:
  assumes total: "\<And>\<sigma> buf. child \<sigma> buf \<noteq> None"
    and progress: "\<And>\<sigma> buf v c \<sigma>'. child \<sigma> buf = Some (Inr (v, c), \<sigma>') \<Longrightarrow> 0 < c"
  shows "\<exists>y. Seq_while child L \<sigma> input n res = Some y"
proof (induction "length input" arbitrary: \<sigma> input n res rule: less_induct)
  case less
  show ?case
  proof (cases "input \<noteq> [] \<and> (L = 0 \<or> n < L)")
    case False
    then show ?thesis by (subst Seq_while.simps) auto
  next
    case True
    from total [of \<sigma> input] obtain r \<sigma>' where o1: "child \<sigma> input = Some (r, \<sigma>')"
      by (cases "child \<sigma> input") auto
    show ?thesis
    proof (cases r)
      case (Inl e)
      with o1 show ?thesis by (subst Seq_while.simps) auto
    next
      case (Inr vc)
      obtain v c where vc: "vc = (v, c)" by (cases vc)
      from progress o1 Inr vc have "0 < c" by blast
      with True have "length (drop c input) < length input" by (cases input) auto
      from less [OF this] obtain y
        where "Seq_while child L \<sigma>' (drop c input) (n + c) (res @ [v]) = Some y"
        by blast
      with True o1 Inr vc show ?thesis by (subst Seq_while.simps) auto
    qed
  qed
qed

text \<open>
  The loop need not end: a child that succeeds without consuming anything is called on
  the same input for ever.
\<close>

lemma Seq_while_no_progress:
  assumes "Seq_while p L \<sigma> input n res = Some y"
  shows "\<not> (L = 0 \<and> input \<noteq> [] \<and> (\<forall>\<sigma> buf. p \<sigma> buf = Some (Inr (VNone, 0), \<sigma>)))"
proof (rule Seq_while.raw_induct [where P = "\<lambda>p L \<sigma> input n res y.
    \<not> (L = 0 \<and> input \<noteq> [] \<and> (\<forall>\<sigma> buf. p \<sigma> buf = Some (Inr (VNone, 0), \<sigma>)))", OF _ assms],
    goal_cases)
  case (1 Seq_while p limit \<sigma> input n res y)
  show ?case
  proof
    assume h: "limit = 0 \<and> input \<noteq> [] \<and> (\<forall>\<sigma> buf. p \<sigma> buf = Some (Inr (VNone, 0), \<sigma>))"
    with 1(2) have "Seq_while p limit \<sigma> input (n + 0) (res @ [VNone]) = Some y"
      by simp
    from 1(1) [OF this] h show False by simp
  qed
qed

lemma Seq_Pad_0_diverges:
  assumes "input \<noteq> []"
  shows "parse_method rt (Seq (Pad 0) 0) \<sigma> input = None"
proof (cases "Seq_while (parse_method rt (Pad 0)) 0 \<sigma> input 0 []")
  case None
  then show ?thesis by (simp add: Seq_parse_def)
next
  case (Some y)
  from Seq_while_no_progress [OF Some] assms show ?thesis
    by (simp add: Pad_parse_def returns_def)
qed



lemma Seq_Pad_exceeds_limit:
  assumes "0 < L"
  shows "parse_method rt (Seq (Pad (Suc L)) L) \<sigma> (replicate (Suc L) 0)
     = Some (Inr (VList [VNone], Suc L), \<sigma>)"
proof -
  let ?p = "parse_method rt (Pad (Suc L))"
  have "Seq_while ?p L \<sigma> (replicate (Suc L) 0) 0 [] = Seq_while ?p L \<sigma> [] (Suc L) [VNone]"
    using assms by (subst Seq_while.simps) (simp add: Pad_parse_def returns_def)
  also have "\<dots> = Some (([VNone], Suc L), \<sigma>)"
    by (rule Seq_while_leave) simp
  finally show ?thesis by (simp add: Seq_parse_def)
qed

text \<open>
  C10: with a limit \<open>L\<close> the loop of \<^verbatim>\<open>Seq.parse\<close> returns at once, without calling the
  child, when the remaining input is empty or \<open>n\<close> has reached \<open>L\<close>, and calls the child
  otherwise; for some child and buffer the consumed count exceeds \<open>L\<close>; and a consumed
  count that is not 0 is less than \<open>L\<close> plus the count of one element.
\<close>

theorem Seq_limit_checked_before_attempt:
  assumes "0 < L"
  shows "(input = [] \<or> L \<le> n \<longrightarrow> Seq_while child L \<sigma> input n res = Some ((res, n), \<sigma>))
   \<and> (input \<noteq> [] \<and> n < L \<longrightarrow>
        Seq_while child L \<sigma> input n res =
          (case child \<sigma> input of
             None \<Rightarrow> None
           | Some (Inl e, \<sigma>') \<Rightarrow> Some ((res, n), \<sigma>')
           | Some (Inr (v, consumed), \<sigma>') \<Rightarrow>
               Seq_while child L \<sigma>' (drop consumed input) (n + consumed) (res @ [v])))
   \<and> (\<exists>d buf vs m \<sigma>'. parse_method rt (Seq d L) \<sigma> buf = Some (Inr (VList vs, m), \<sigma>') \<and> L < m)
   \<and> (parse_method rt (Seq d L) \<sigma> buf = Some (Inr (v, m), \<sigma>') \<longrightarrow>
        m = 0 \<or> (\<exists>\<sigma>1 b w c \<sigma>2. parse_method rt d \<sigma>1 b = Some (Inr (w, c), \<sigma>2) \<and> m < L + c))"
proof (intro conjI impI)
  assume "input = [] \<or> L \<le> n"
  with assms show "Seq_while child L \<sigma> input n res = Some ((res, n), \<sigma>)"
    by (intro Seq_while_leave) auto
next
  assume "input \<noteq> [] \<and> n < L"
  then show "Seq_while child L \<sigma> input n res =
      (case child \<sigma> input of
         None \<Rightarrow> None
       | Some (Inl e, \<sigma>') \<Rightarrow> Some ((res, n), \<sigma>')
       | Some (Inr (v, consumed), \<sigma>') \<Rightarrow>
           Seq_while child L \<sigma>' (drop consumed input) (n + consumed) (res @ [v]))"
    by (subst Seq_while.simps) simp
next
  show "\<exists>d buf vs m \<sigma>'. parse_method rt (Seq d L) \<sigma> buf = Some (Inr (VList vs, m), \<sigma>') \<and> L < m"
    using Seq_Pad_exceeds_limit [OF assms, of rt \<sigma>] by (meson lessI)
next
  assume "parse_method rt (Seq d L) \<sigma> buf = Some (Inr (v, m), \<sigma>')"
  then obtain vs where "Seq_while (parse_method rt d) L \<sigma> buf 0 [] = Some ((vs, m), \<sigma>')"
    by (auto simp add: Seq_parse_def split: option.splits)
  from Seq_while_overshoot [OF this] assms
  show "m = 0 \<or> (\<exists>\<sigma>1 b w c \<sigma>2. parse_method rt d \<sigma>1 b = Some (Inr (w, c), \<sigma>2) \<and> m < L + c)"
    by simp
qed

theorem Seq_limit_checked_before_attempt_witness:
  "Seq_while (parse_method ascii_runtime (UInt 16 ''little'')) 1 [] [3, 0] 1 [VInt 7]
     = Some (([VInt 7], 1), [])
   \<and> Seq_while (parse_method ascii_runtime (UInt 16 ''little'')) 1 [] [3, 0] 0 []
     = Some (([VInt 3], 2), [])"
proof -
  let ?child = "parse_method ascii_runtime (UInt 16 ''little'')"
  have c: "?child [] [3, 0] = Some (Inr (VInt 3, 2), [])"
    by code_simp
  have one: "(0::nat) < 1" by simp
  note stop = Seq_limit_checked_before_attempt [OF one, THEN conjunct1, rule_format]
  note step = Seq_limit_checked_before_attempt [OF one, THEN conjunct2, THEN conjunct1, rule_format]
  have "Seq_while ?child 1 [] [3, 0] 1 [VInt 7] = Some (([VInt 7], 1), [])"
    by (rule stop) simp
  moreover have "Seq_while ?child 1 [] [3, 0] 0 [] = Seq_while ?child 1 [] [] 2 [VInt 3]"
    by (subst step) (simp_all add: c)
  moreover have "Seq_while ?child 1 [] [] 2 [VInt 3] = Some (([VInt 3], 2), [])"
    by (rule stop) simp
  ultimately show ?thesis by simp
qed

subsection \<open>Consumed counts and the length of the buffer\<close>

lemma boundedD: "bounded p \<Longrightarrow> p \<sigma> input = Some (Inr (v, c), \<sigma>') \<Longrightarrow> c \<le> length input"
  unfolding bounded_def by blast

lemma Type_parse_bounded: "Type_parse rt fmt input = Inr (v, c) \<Longrightarrow> c \<le> length input"
  by (auto simp add: Type_parse_def unpack_def split: sum.splits option.splits if_splits)

lemma Sig_parse_bounded: "Sig_parse s input = Inr (v, c) \<Longrightarrow> c \<le> length input"
proof -
  assume "Sig_parse s input = Inr (v, c)"
  then have t: "take (length s) input = s" and c: "c = length s"
    by (auto simp add: Sig_parse_def split: if_splits)
  have "length (take (length s) input) = min (length input) (length s)"
    by (rule length_take)
  with t c show ?thesis by simp
qed

lemma Struct_for_struct_bounded:
  "Struct_for self 0 False ps \<sigma> input n = Some (Inr n', \<sigma>') \<Longrightarrow>
     \<forall>f \<in> set ps. bounded (snd f) \<Longrightarrow> n' \<le> n + length input"
proof (induction ps arbitrary: \<sigma> input n)
  case Nil
  then show ?case by simp
next
  case (Cons a ps)
  obtain name p where a: "a = (name, p)" by (cases a)
  from Cons.prems(1) obtain v c \<sigma>1 where pc: "p \<sigma> input = Some (Inr (v, c), \<sigma>1)"
    and rest: "Struct_for self 0 False ps (setattr \<sigma>1 self name v) (drop c input) (n + c)
        = Some (Inr n', \<sigma>')"
    by (auto simp add: a aligned_def Let_def split: option.splits sum.splits if_splits)
  from Cons.prems(2) have "bounded p" by (simp add: a)
  from boundedD [OF this pc] have "c \<le> length input" .
  moreover from Cons.IH [OF rest] Cons.prems(2) have "n' \<le> n + c + length (drop c input)" by simp
  ultimately show ?case by simp
qed

lemma Struct_for_union_bounded:
  "Struct_for self 0 True ps \<sigma> input n = Some (Inr n', \<sigma>') \<Longrightarrow>
     \<forall>f \<in> set ps. bounded (snd f) \<Longrightarrow> n \<le> length input \<Longrightarrow> n' \<le> length input"
proof (induction ps arbitrary: \<sigma> n)
  case Nil
  then show ?case by simp
next
  case (Cons a ps)
  obtain name p where a: "a = (name, p)" by (cases a)
  from Cons.prems(1) obtain v c \<sigma>1 where pc: "p \<sigma> input = Some (Inr (v, c), \<sigma>1)"
    and rest: "Struct_for self 0 True ps (setattr \<sigma>1 self name v) input (max n c)
        = Some (Inr n', \<sigma>')"
    by (auto simp add: a aligned_def Let_def split: option.splits sum.splits if_splits)
  from Cons.prems(2) have "bounded p" by (simp add: a)
  from boundedD [OF this pc] have "c \<le> length input" .
  with Cons.IH [OF rest] Cons.prems(2,3) show ?case by simp
qed

lemma Any_for_bounded:
  "Any_for ps \<sigma> input excs = Some (Inr (v, c), \<sigma>') \<Longrightarrow> \<forall>p \<in> set ps. bounded p \<Longrightarrow>
     c \<le> length input"
proof (induction ps arbitrary: \<sigma> excs)
  case Nil
  then show ?case by simp
next
  case (Cons p ps)
  from Cons.prems(2) have bp: "bounded p" by simp
  show ?case
  proof (cases "p \<sigma> input")
    case None
    with Cons.prems(1) show ?thesis by simp
  next
    case (Some o1)
    obtain r \<sigma>1 where o1: "o1 = (r, \<sigma>1)" by (cases o1)
    show ?thesis
    proof (cases r)
      case (Inl e)
      with Cons.prems Some o1 Cons.IH [of \<sigma>1 "excs @ [e]"] show ?thesis by simp
    next
      case (Inr vc)
      with Cons.prems(1) Some o1 have "p \<sigma> input = Some (Inr (v, c), \<sigma>')" by simp
      from boundedD [OF bp this] show ?thesis .
    qed
  qed
qed

lemma Seq_while_bounded:
  assumes "Seq_while p L \<sigma> input n res = Some y"
  shows "bounded p \<longrightarrow> snd (fst y) \<le> n + length input"
proof (rule Seq_while.raw_induct [where P = "\<lambda>p L \<sigma> input n res y.
    bounded p \<longrightarrow> snd (fst y) \<le> n + length input", OF _ assms], goal_cases)
  case (1 Seq_while p limit \<sigma> input n res y)
  show ?case
  proof
    assume b: "bounded p"
    show "snd (fst y) \<le> n + length input"
    proof (cases "input \<noteq> [] \<and> (limit = 0 \<or> n < limit)")
      case False
      with 1(2) show ?thesis by (auto split: if_splits)
    next
      case True
      show ?thesis
      proof (cases "p \<sigma> input")
        case None
        with 1(2) True show ?thesis by simp
      next
        case (Some o1)
        obtain r \<sigma>' where o1: "o1 = (r, \<sigma>')" by (cases o1)
        show ?thesis
        proof (cases r)
          case (Inl e)
          with 1(2) True Some o1 show ?thesis by auto
        next
          case (Inr vc)
          obtain v c where vc: "vc = (v, c)" by (cases vc)
          from 1(2) True Some o1 Inr vc
          have rec: "Seq_while p limit \<sigma>' (drop c input) (n + c) (res @ [v]) = Some y" by simp
          from Some o1 Inr vc have "p \<sigma> input = Some (Inr (v, c), \<sigma>')" by simp
          from boundedD [OF b this] have "c \<le> length input" .
          with 1(1) [OF rec] b show ?thesis by simp
        qed
      qed
    qed
  qed
qed

lemma Arr_repeat_consumed:
  assumes "Arr_repeat p \<sigma> input res = Some y"
  shows "\<forall>vs n. fst y = Inr (vs, n) \<longrightarrow> n = 0"
proof (rule Arr_repeat.raw_induct [where P = "\<lambda>p \<sigma> input res y.
    \<forall>vs n. fst y = Inr (vs, n) \<longrightarrow> n = 0", OF _ assms], goal_cases)
  case (1 Arr_repeat p \<sigma> input res y)
  then show ?case
    by (auto split: if_splits option.splits sum.splits prod.splits)
qed

text \<open>
  Outside the three cases that \<open>within_buffer\<close> excludes, a successful parse records at
  most as many consumed bytes as the buffer holds.
\<close>

lemma within_buffer_bounded: "within_buffer d \<Longrightarrow> bounded (parse_method rt d)"
proof (induction d)
  case (Struct self name align is_union spec)
  have all: "\<forall>f \<in> set (map (map_prod id (parse_method rt)) spec). bounded (snd f)"
    using Struct by (fastforce simp add: list_all_iff)
  show ?case
    unfolding bounded_def
  proof (intro allI impI)
    fix \<sigma> input v c \<sigma>'
    assume "parse_method rt (Struct self name align is_union spec) \<sigma> input
        = Some (Inr (v, c), \<sigma>')"
    then have s: "Struct_for self 0 is_union (map (map_prod id (parse_method rt)) spec)
        \<sigma> input 0 = Some (Inr c, \<sigma>')"
      using Struct.prems by (auto simp add: Struct_parse_def split: option.splits sum.splits)
    show "c \<le> length input"
    proof (cases is_union)
      case True
      with s Struct_for_union_bounded [OF _ all, of self \<sigma> input 0 c \<sigma>'] show ?thesis by simp
    next
      case False
      with s Struct_for_struct_bounded [OF _ all, of self \<sigma> input 0 c \<sigma>'] show ?thesis by simp
    qed
  qed
next
  case (Any children)
  have all: "\<forall>p \<in> set (map (parse_method rt) children). bounded p"
    using Any by (auto simp add: list_all_iff)
  show ?case
    unfolding bounded_def
  proof (intro allI impI)
    fix \<sigma> input v c \<sigma>'
    assume "parse_method rt (Any children) \<sigma> input = Some (Inr (v, c), \<sigma>')"
    then have "Any_for (map (parse_method rt) children) \<sigma> input [] = Some (Inr (v, c), \<sigma>')"
      by (auto simp add: Any_parse_def split: option.splits sum.splits)
    from Any_for_bounded [OF this all] show "c \<le> length input" .
  qed
next
  case (Arr d len)
  show ?case
    unfolding bounded_def
  proof (intro allI impI)
    fix \<sigma> input v c \<sigma>'
    assume "parse_method rt (Arr d len) \<sigma> input = Some (Inr (v, c), \<sigma>')"
    with Arr.prems obtain vs where
      "Arr_repeat (resolved d (parse_method rt d)) \<sigma> input [] = Some (Inr (vs, c), \<sigma>')"
      by (auto simp add: Arr_parse_def split: option.splits sum.splits)
    from Arr_repeat_consumed [OF this] show "c \<le> length input" by simp
  qed
next
  case (Seq d limit)
  then have b: "bounded (parse_method rt d)" by simp
  show ?case
    unfolding bounded_def
  proof (intro allI impI)
    fix \<sigma> input v c \<sigma>'
    assume "parse_method rt (Seq d limit) \<sigma> input = Some (Inr (v, c), \<sigma>')"
    then obtain vs where "Seq_while (parse_method rt d) limit \<sigma> input 0 [] = Some ((vs, c), \<sigma>')"
      by (auto simp add: Seq_parse_def split: option.splits)
    from Seq_while_bounded [OF this] b show "c \<le> length input" by simp
  qed
qed (auto simp add: bounded_def returns_def Str_parse_def Pad_parse_def Data_parse_def
       dest: Type_parse_bounded Sig_parse_bounded split: if_splits)

end
